theory Spec2Isabelle
  imports Main "HOL-Library.Char_ord" "HOL-Library.List_Lexorder"
begin

section \<open>Data frames\<close>

text \<open>
  The scripts keep every table in a pandas DataFrame. A cell is a string (what
  \<^verbatim>\<open>read_html\<close> yields for text), an integer, or the missing value NaN. Floating-point
  cells are not modelled: every function below moves cell values around unchanged, except
  \<^verbatim>\<open>astype(str)\<close> on the join key and \<^verbatim>\<open>fillna(0)\<close>.

  A row is the ordered mapping from column name to cell; a data frame is its ordered
  column names together with its rows.
\<close>

datatype cell = Str string | Num int | NaN

type_synonym row = "(string \<times> cell) list"

record dataframe =
  columns :: "string list"
  rows :: "row list"

text \<open>Reading column \<open>c\<close> of a row; a column the row does not have reads as missing.\<close>

definition cell_at :: "row \<Rightarrow> string \<Rightarrow> cell" where
  "cell_at r c = (case map_of r c of Some v \<Rightarrow> v | None \<Rightarrow> NaN)"

text \<open>
  What pandas maintains for every frame that \<^verbatim>\<open>read_html\<close> returns: the column labels
  are unique (duplicate header texts are renamed apart) and every row has exactly one cell
  for each column, in column order.
\<close>

definition wf_df :: "dataframe \<Rightarrow> bool" where
  "wf_df d \<longleftrightarrow> distinct (columns d) \<and> (\<forall>r \<in> set (rows d). map fst r = columns d)"

text \<open>The values of the join key, row by row.\<close>

definition team_keys :: "dataframe \<Rightarrow> cell list" where
  "team_keys d = map (\<lambda>r. cell_at r ''Team'') (rows d)"

subsection \<open>Python's \<^verbatim>\<open>str\<close> on a cell\<close>

fun str_nat :: "nat \<Rightarrow> string" where
  "str_nat n =
     (if n < 10 then [''0123456789'' ! n]
      else str_nat (n div 10) @ [''0123456789'' ! (n mod 10)])"

declare str_nat.simps [simp del]

fun py_str :: "cell \<Rightarrow> string" where
  "py_str (Str s) = s"
| "py_str (Num i) = (if i < 0 then CHR ''-'' # str_nat (nat (- i)) else str_nat (nat i))"
| "py_str NaN = ''nan''"

subsection \<open>The pandas operations the scripts call\<close>

datatype error =
    RequestError
  | AttributeError
  | ValueError
  | KeyError string

text \<open>\<^verbatim>\<open>df['Team'] = df['Team'].astype(str)\<close>: reading a column the frame does not have
  raises KeyError; otherwise every cell of that column becomes its string.\<close>

definition astype_str :: "string \<Rightarrow> row \<Rightarrow> row" where
  "astype_str c r = map (\<lambda>(k, v). if k = c then (k, Str (py_str v)) else (k, v)) r"

definition team_astype_str :: "dataframe \<Rightarrow> error + dataframe" where
  "team_astype_str df =
     (if ''Team'' \<in> set (columns df)
      then Inr (df\<lparr>rows := map (astype_str ''Team'') (rows df)\<rparr>)
      else Inl (KeyError ''Team''))"

text \<open>\<^verbatim>\<open>df.drop(columns=cs)\<close>, called only with labels the frame has.\<close>

definition drop_columns :: "dataframe \<Rightarrow> string list \<Rightarrow> dataframe" where
  "drop_columns df cs =
     \<lparr>columns = [c \<leftarrow> columns df. c \<notin> set cs],
      rows = map (\<lambda>r. [(k, v) \<leftarrow> r. k \<notin> set cs]) (rows df)\<rparr>"

text \<open>\<^verbatim>\<open>df.fillna(0)\<close>: every missing cell, in every column, becomes the number 0.\<close>

fun fill0 :: "cell \<Rightarrow> cell" where
  "fill0 NaN = Num 0"
| "fill0 v = v"

definition fillna0 :: "dataframe \<Rightarrow> dataframe" where
  "fillna0 df = df\<lparr>rows := map (map (\<lambda>(k, v). (k, fill0 v))) (rows df)\<rparr>"

text \<open>
  \<^verbatim>\<open>pd.concat(dfs, ignore_index=True)\<close>: an empty list raises ValueError. Otherwise the
  result has the union of the frames' columns, in order of first appearance, and all rows
  of all frames in order; a row has NaN in every column its own frame lacks.
\<close>

definition union_columns :: "string list \<Rightarrow> string list \<Rightarrow> string list" where
  "union_columns acc cs = acc @ [c \<leftarrow> cs. c \<notin> set acc]"

definition reindex_row :: "string list \<Rightarrow> row \<Rightarrow> row" where
  "reindex_row cols r = map (\<lambda>c. (c, cell_at r c)) cols"

definition pd_concat :: "dataframe list \<Rightarrow> error + dataframe" where
  "pd_concat dfs =
     (if dfs = [] then Inl ValueError
      else let cols = foldl union_columns [] (map columns dfs)
           in Inr \<lparr>columns = cols,
                   rows = concat (map (\<lambda>d. map (reindex_row cols) (rows d)) dfs)\<rparr>)"

text \<open>
  \<^verbatim>\<open>pd.merge(left, right, on='Team', how='outer')\<close>. A frame without the key column
  raises KeyError. The result has the left columns followed by the right columns other
  than the key; a label other than the key that both frames have is suffixed \<^verbatim>\<open>_x\<close> on
  the left and \<^verbatim>\<open>_y\<close> on the right. Every left row is paired with every right row of the
  same key, or with NaN when there is none; a right row whose key no left row has comes
  with NaN in the left columns other than the key. The rows come ordered by the join
  key, as the pandas documentation has it for an outer merge (older releases keep the
  left rows first); the keys are strings wherever the scripts call it, and no statement
  below depends on the order of the rows.
\<close>

definition overlap :: "dataframe \<Rightarrow> dataframe \<Rightarrow> string list" where
  "overlap left right = [c \<leftarrow> columns left. c \<in> set (columns right) \<and> c \<noteq> ''Team'']"

definition suffixed :: "string list \<Rightarrow> string \<Rightarrow> string \<Rightarrow> string" where
  "suffixed ov sfx c = (if c \<in> set ov then c @ sfx else c)"

definition left_row :: "string list \<Rightarrow> row \<Rightarrow> row" where
  "left_row ov l = map (\<lambda>(k, v). (suffixed ov ''_x'' k, v)) l"

definition right_row :: "string list \<Rightarrow> row \<Rightarrow> row" where
  "right_row ov r = map (\<lambda>(k, v). (suffixed ov ''_y'' k, v)) [(k, v) \<leftarrow> r. k \<noteq> ''Team'']"

definition left_columns :: "string list \<Rightarrow> dataframe \<Rightarrow> string list" where
  "left_columns ov left = map (suffixed ov ''_x'') (columns left)"

definition right_columns :: "string list \<Rightarrow> dataframe \<Rightarrow> string list" where
  "right_columns ov right = map (suffixed ov ''_y'') [c \<leftarrow> columns right. c \<noteq> ''Team'']"

definition nan_row :: "string list \<Rightarrow> row" where
  "nan_row cols = map (\<lambda>c. (c, NaN)) cols"

definition key_only_row :: "string list \<Rightarrow> cell \<Rightarrow> row" where
  "key_only_row cols k = map (\<lambda>c. (c, if c = ''Team'' then k else NaN)) cols"

definition joined_left :: "dataframe \<Rightarrow> dataframe \<Rightarrow> row \<Rightarrow> row list" where
  "joined_left left right l =
     (let ov = overlap left right;
          ms = [r \<leftarrow> rows right. cell_at r ''Team'' = cell_at l ''Team'']
      in if ms = [] then [left_row ov l @ nan_row (right_columns ov right)]
         else map (\<lambda>r. left_row ov l @ right_row ov r) ms)"

definition right_only :: "dataframe \<Rightarrow> dataframe \<Rightarrow> row list" where
  "right_only left right =
     (let ov = overlap left right
      in map (\<lambda>r. key_only_row (left_columns ov left) (cell_at r ''Team'') @ right_row ov r)
           [r \<leftarrow> rows right. cell_at r ''Team'' \<notin> set (team_keys left)])"

definition pd_merge_outer :: "dataframe \<Rightarrow> dataframe \<Rightarrow> error + dataframe" where
  "pd_merge_outer left right =
     (if ''Team'' \<notin> set (columns left) \<or> ''Team'' \<notin> set (columns right)
      then Inl (KeyError ''Team'')
      else let ov = overlap left right
           in Inr \<lparr>columns = left_columns ov left @ right_columns ov right,
                   rows = sort_key (\<lambda>r. py_str (cell_at r ''Team''))
                            (concat (map (joined_left left right) (rows left))
                             @ right_only left right)\<rparr>)"

section \<open>The web, as the scripts see it\<close>

text \<open>
  Fetching and HTML parsing are libraries outside the repository. A page is what the
  scripts read from its parsed markup: the \<^verbatim>\<open>href\<close> of every \<^verbatim>\<open>a\<close> tag in document order
  (\<open>None\<close> for a tag without one), and what \<^verbatim>\<open>find('table')\<close> followed by \<^verbatim>\<open>read_html\<close>
  gives for the first table. A request either raises or answers with a status code and a
  page; the answer to a URL does not change during a run.
\<close>

datatype first_table = NoTable | ReadHtmlError | Parsed dataframe

datatype soup = Soup (a_hrefs: "string option list") (table_of: first_table)

datatype response = RequestException | Response nat soup

type_synonym web = "string \<Rightarrow> response"

section \<open>The first script: \<^verbatim>\<open>data_collection.py\<close>\<close>

text \<open>\<^verbatim>\<open>re.compile("stats").search(href)\<close>: the text occurs somewhere in the string.\<close>

fun contains :: "string \<Rightarrow> string \<Rightarrow> bool" where
  "contains pat [] = (pat = [])"
| "contains pat (c # cs) = (take (length pat) (c # cs) = pat \<or> contains pat cs)"

text \<open>
  \<^verbatim>\<open>get_data\<close>: nothing is caught. A failing request raises; a page without a table
  makes \<^verbatim>\<open>table.prettify()\<close> raise AttributeError on \<^verbatim>\<open>None\<close>; a table that cannot be
  read makes \<^verbatim>\<open>read_html\<close> raise ValueError. The status code is not looked at.
\<close>

definition get_data :: "web \<Rightarrow> string \<Rightarrow> error + dataframe" where
  "get_data w url =
     (case w url of
        RequestException \<Rightarrow> Inl RequestError
      | Response status text \<Rightarrow>
          (case table_of text of
             NoTable \<Rightarrow> Inl AttributeError
           | ReadHtmlError \<Rightarrow> Inl ValueError
           | Parsed df \<Rightarrow> Inr df))"

definition get_subsequent_links :: "soup \<Rightarrow> string \<Rightarrow> string list" where
  "get_subsequent_links text base_url =
     [base_url @ href. Some href \<leftarrow> a_hrefs text, contains ''stats'' href, href \<noteq> []]"

definition get_text :: "web \<Rightarrow> string \<Rightarrow> error + soup" where
  "get_text w url =
     (case w url of RequestException \<Rightarrow> Inl RequestError | Response status text \<Rightarrow> Inr text)"

text \<open>The loop of \<^verbatim>\<open>get_df\<close> over \<^verbatim>\<open>link_list[:-1]\<close>: the first page that raises ends it.\<close>

fun get_data_each :: "web \<Rightarrow> string list \<Rightarrow> error + dataframe list" where
  "get_data_each w [] = Inr []"
| "get_data_each w (link # links) =
     (case get_data w link of
        Inl e \<Rightarrow> Inl e
      | Inr df \<Rightarrow> (case get_data_each w links of Inl e \<Rightarrow> Inl e | Inr dfs \<Rightarrow> Inr (df # dfs)))"

definition get_df :: "web \<Rightarrow> string \<Rightarrow> error + dataframe" where
  "get_df w url =
     (case get_text w url of
        Inl e \<Rightarrow> Inl e
      | Inr text \<Rightarrow>
          (let link_list = get_subsequent_links text ''https://www.ncaa.com''
           in case get_data_each w (butlast link_list) of
                Inl e \<Rightarrow> Inl e
              | Inr df_list \<Rightarrow> pd_concat df_list))"

definition all_stats :: "string list" where
  "all_stats =
     [''474'', ''216'', ''1284'', ''214'', ''1288'', ''1285'', ''148'', ''149'', ''286'',
      ''638'', ''150'', ''633'', ''151'', ''859'', ''857'', ''932'', ''146'', ''147'',
      ''145'', ''215'', ''625'', ''152'', ''518'', ''153'', ''519'', ''931'', ''217'', ''168'']"

text \<open>The first loop of \<^verbatim>\<open>get_full_data\<close>, over the global list of statistic ids.\<close>

fun get_df_each :: "web \<Rightarrow> string list \<Rightarrow> error + dataframe list" where
  "get_df_each w [] = Inr []"
| "get_df_each w (num # nums) =
     (case get_df w (''https://www.ncaa.com/stats/basketball-men/d1/current/team/'' @ num) of
        Inl e \<Rightarrow> Inl e
      | Inr df \<Rightarrow>
          (case team_astype_str df of
             Inl e \<Rightarrow> Inl e
           | Inr df' \<Rightarrow>
               (case get_df_each w nums of Inl e \<Rightarrow> Inl e | Inr dfs \<Rightarrow> Inr (df' # dfs))))"

text \<open>
  One turn of the merge loop, the same in both scripts: the columns of the new frame that
  the master already has, other than the key, are dropped; the rest is merged in.
\<close>

definition dup_cols :: "dataframe \<Rightarrow> dataframe \<Rightarrow> string list" where
  "dup_cols master_df df =
     [col \<leftarrow> columns df. col \<in> set (columns master_df) \<and> col \<noteq> ''Team'']"

definition merge_step :: "dataframe \<Rightarrow> dataframe \<Rightarrow> error + dataframe" where
  "merge_step master_df df = pd_merge_outer master_df (drop_columns df (dup_cols master_df df))"

text \<open>The second loop of \<^verbatim>\<open>get_full_data\<close>; \<open>None\<close> is Python's \<^verbatim>\<open>None\<close>.\<close>

fun merge_from_none :: "dataframe option \<Rightarrow> dataframe list \<Rightarrow> error + dataframe option" where
  "merge_from_none master_df [] = Inr master_df"
| "merge_from_none master_df (df # dfs) =
     (case team_astype_str df of
        Inl e \<Rightarrow> Inl e
      | Inr df' \<Rightarrow>
          (case master_df of
             None \<Rightarrow> merge_from_none (Some df') dfs
           | Some m \<Rightarrow>
               (case merge_step m df' of
                  Inl e \<Rightarrow> Inl e
                | Inr m' \<Rightarrow> merge_from_none (Some m') dfs)))"

text \<open>\<^verbatim>\<open>get_full_data(urls)\<close>: the argument is in the signature and nowhere in the body.\<close>

definition get_full_data :: "web \<Rightarrow> string list \<Rightarrow> error + dataframe option" where
  "get_full_data w urls =
     (case get_df_each w all_stats of
        Inl e \<Rightarrow> Inl e
      | Inr all_dfs \<Rightarrow> merge_from_none None all_dfs)"

text \<open>The two statements at the end of the script: the call, then \<^verbatim>\<open>fillna(0)\<close> on what
  it returned (on \<^verbatim>\<open>None\<close> that raises AttributeError).\<close>

definition script_master_df :: "web \<Rightarrow> error + dataframe" where
  "script_master_df w =
     (case get_full_data w all_stats of
        Inl e \<Rightarrow> Inl e
      | Inr None \<Rightarrow> Inl AttributeError
      | Inr (Some master_df) \<Rightarrow> Inr (fillna0 master_df))"

section \<open>The second script: \<^verbatim>\<open>NCAADataCollector\<close>\<close>

text \<open>
  The methods keep their names without the leading underscore; \<open>get_subsequent_links_u\<close>
  is the class's \<^verbatim>\<open>_get_subsequent_links\<close>, the unsuffixed name being the first script's.
  The body of \<^verbatim>\<open>get_full_stat_dataframe\<close> is split at its loops: \<open>stat_links\<close>,
  \<open>df_list_for_stat\<close>, \<open>combined_df_for_stat\<close>, \<open>collect_all_dfs\<close>, \<open>merge_loop\<close>,
  \<open>merge_all_dfs\<close>.
\<close>

text \<open>\<^verbatim>\<open>_get_soup\<close>: every request failure is caught and gives \<^verbatim>\<open>None\<close>;
  \<^verbatim>\<open>raise_for_status\<close> makes a 4xx or 5xx answer such a failure.\<close>

definition get_soup :: "web \<Rightarrow> string \<Rightarrow> soup option" where
  "get_soup w url =
     (case w url of
        RequestException \<Rightarrow> None
      | Response status page \<Rightarrow> if 400 \<le> status \<and> status < 600 then None else Some page)"

definition get_team_stats_data :: "web \<Rightarrow> string \<Rightarrow> dataframe option" where
  "get_team_stats_data w url =
     (case get_soup w url of
        None \<Rightarrow> None
      | Some page \<Rightarrow>
          (case table_of page of
             NoTable \<Rightarrow> None
           | ReadHtmlError \<Rightarrow> None
           | Parsed df \<Rightarrow> Some df))"

text \<open>The second loop of \<^verbatim>\<open>_get_subsequent_links\<close>, with its list and its set.\<close>

fun unique_loop :: "string list \<Rightarrow> string set \<Rightarrow> string list \<Rightarrow> string list" where
  "unique_loop unique_links seen [] = unique_links"
| "unique_loop unique_links seen (link # links) =
     (if link \<notin> seen then unique_loop (unique_links @ [link]) (insert link seen) links
      else unique_loop unique_links seen links)"

text \<open>
  \<^verbatim>\<open>_get_subsequent_links\<close>. The regular expression is built from the prefix, which holds
  the statistic id; its matcher \<open>re_search pattern string\<close> is a parameter. The prefix is
  then tested literally by \<^verbatim>\<open>startswith\<close>.
\<close>

definition startswith :: "string \<Rightarrow> string \<Rightarrow> bool" where
  "startswith s p \<longleftrightarrow> take (length p) s = p"

definition matching_links :: "(string \<Rightarrow> string \<Rightarrow> bool) \<Rightarrow> soup \<Rightarrow> string \<Rightarrow> string list" where
  "matching_links re_search page base_url_prefix =
     [href. Some href \<leftarrow> a_hrefs page,
            re_search (''^'' @ base_url_prefix @ ''.*stats'') href,
            href \<noteq> [] \<and> startswith href base_url_prefix]"

definition get_subsequent_links_u ::
  "(string \<Rightarrow> string \<Rightarrow> bool) \<Rightarrow> soup \<Rightarrow> string \<Rightarrow> string list" where
  "get_subsequent_links_u re_search page base_url_prefix =
     unique_loop [] {} (matching_links re_search page base_url_prefix)"

definition initial_url :: "string \<Rightarrow> string" where
  "initial_url stat_id = ''https://www.ncaa.com'' @ ''/stats/basketball-men/d1/current/team/'' @ stat_id"

text \<open>The pages of one statistic, start page included, once the start page was fetched.\<close>

definition stat_links :: "(string \<Rightarrow> string \<Rightarrow> bool) \<Rightarrow> soup \<Rightarrow> string \<Rightarrow> string list" where
  "stat_links re_search initial_soup stat_id =
     (let subsequent_links =
            get_subsequent_links_u re_search initial_soup (initial_url stat_id @ ''/'')
      in if initial_url stat_id \<notin> set subsequent_links
         then initial_url stat_id # subsequent_links
         else subsequent_links)"

text \<open>The inner loop: the tables of the pages that gave one, in page order.\<close>

fun df_list_for_stat :: "web \<Rightarrow> string list \<Rightarrow> dataframe list" where
  "df_list_for_stat w [] = []"
| "df_list_for_stat w (link # links) =
     (case get_team_stats_data w link of
        None \<Rightarrow> df_list_for_stat w links
      | Some df \<Rightarrow> df # df_list_for_stat w links)"

text \<open>The concatenation of one statistic's pages, before its key column is made a
  string; \<open>None\<close> when no page gave a table.\<close>

definition combined_df_for_stat :: "web \<Rightarrow> string list \<Rightarrow> error + dataframe option" where
  "combined_df_for_stat w links =
     (let dfs = df_list_for_stat w links
      in if dfs = [] then Inr None
         else case pd_concat dfs of Inl e \<Rightarrow> Inl e | Inr df \<Rightarrow> Inr (Some df))"

text \<open>The outer loop of \<^verbatim>\<open>get_full_stat_dataframe\<close>: the frames collected for the ids.\<close>

fun collect_all_dfs ::
  "(string \<Rightarrow> string \<Rightarrow> bool) \<Rightarrow> web \<Rightarrow> string list \<Rightarrow> error + dataframe list" where
  "collect_all_dfs re_search w [] = Inr []"
| "collect_all_dfs re_search w (stat_id # stat_ids) =
     (case get_soup w (initial_url stat_id) of
        None \<Rightarrow> collect_all_dfs re_search w stat_ids
      | Some initial_soup \<Rightarrow>
          (case combined_df_for_stat w (stat_links re_search initial_soup stat_id) of
             Inl e \<Rightarrow> Inl e
           | Inr None \<Rightarrow> collect_all_dfs re_search w stat_ids
           | Inr (Some combined) \<Rightarrow>
               (case team_astype_str combined of
                  Inl e \<Rightarrow> Inl e
                | Inr df \<Rightarrow>
                    (case collect_all_dfs re_search w stat_ids of
                       Inl e \<Rightarrow> Inl e
                     | Inr dfs \<Rightarrow> Inr (df # dfs)))))"

text \<open>The merge loop over \<^verbatim>\<open>all_dfs[1:]\<close>.\<close>

fun merge_loop :: "dataframe \<Rightarrow> dataframe list \<Rightarrow> error + dataframe" where
  "merge_loop master_df [] = Inr master_df"
| "merge_loop master_df (df # dfs) =
     (case merge_step master_df df of
        Inl e \<Rightarrow> Inl e
      | Inr m \<Rightarrow> merge_loop m dfs)"

text \<open>What \<^verbatim>\<open>get_full_stat_dataframe\<close> does with the collected frames.\<close>

definition merge_all_dfs :: "dataframe list \<Rightarrow> error + dataframe" where
  "merge_all_dfs all_dfs =
     (case all_dfs of
        [] \<Rightarrow> Inr \<lparr>columns = [], rows = []\<rparr>
      | first # rest \<Rightarrow>
          (case merge_loop first rest of
             Inl e \<Rightarrow> Inl e
           | Inr master_df \<Rightarrow> Inr (fillna0 master_df)))"

definition get_full_stat_dataframe ::
  "(string \<Rightarrow> string \<Rightarrow> bool) \<Rightarrow> web \<Rightarrow> string list \<Rightarrow> error + dataframe" where
  "get_full_stat_dataframe re_search w stat_ids =
     (case collect_all_dfs re_search w stat_ids of
        Inl e \<Rightarrow> Inl e
      | Inr all_dfs \<Rightarrow> merge_all_dfs all_dfs)"

section \<open>Notions used in the statements\<close>

text \<open>
  \<open>team_of\<close> reads the join key of a row. \<open>category_df\<close> is what both collection loops hand
  to the merge: a frame with unique labels and full rows, a \<open>Team\<close> column, and string keys
  (the loops have applied \<^verbatim>\<open>astype(str)\<close>). \<open>merged\<close> is the result of one turn of the merge
  loop on such frames, with nothing suffixed because the shared labels were dropped
  (lemma \<open>merge_step_merged\<close>). \<open>owned t c m\<close> says that column \<open>c\<close> of the master \<open>m\<close> holds
  what frame \<open>t\<close> has for each team, and NaN for the teams \<open>t\<close> lacks. \<open>pages_wf\<close> says that
  every table the site serves is well formed.
\<close>

definition new_columns :: "dataframe \<Rightarrow> dataframe \<Rightarrow> string list" where
  "new_columns m d = [c \<leftarrow> columns d. c \<notin> set (columns m)]"

definition new_cells :: "dataframe \<Rightarrow> row \<Rightarrow> row" where
  "new_cells m r = [(k, v) \<leftarrow> r. k \<notin> set (columns m)]"

definition team_of :: "row \<Rightarrow> cell" where
  "team_of r = cell_at r ''Team''"

definition pair_left :: "dataframe \<Rightarrow> dataframe \<Rightarrow> row \<Rightarrow> row list" where
  "pair_left m d l =
     (if team_of l \<in> set (team_keys d)
      then map (\<lambda>r. l @ new_cells m r) [r \<leftarrow> rows d. team_of r = team_of l]
      else [l @ nan_row (new_columns m d)])"

definition pair_right :: "dataframe \<Rightarrow> dataframe \<Rightarrow> row list" where
  "pair_right m d =
     map (\<lambda>r. key_only_row (columns m) (team_of r) @ new_cells m r)
       [r \<leftarrow> rows d. team_of r \<notin> set (team_keys m)]"

definition merged :: "dataframe \<Rightarrow> dataframe \<Rightarrow> dataframe" where
  "merged m d =
     \<lparr>columns = columns m @ new_columns m d,
      rows = sort_key (\<lambda>r. py_str (team_of r))
               (concat (map (pair_left m d) (rows m)) @ pair_right m d)\<rparr>"

fun is_str :: "cell \<Rightarrow> bool" where
  "is_str (Str s) = True"
| "is_str v = False"

definition category_df :: "dataframe \<Rightarrow> bool" where
  "category_df d \<longleftrightarrow>
     wf_df d \<and> ''Team'' \<in> set (columns d) \<and> (\<forall>k \<in> set (team_keys d). is_str k)"

definition fill_row :: "row \<Rightarrow> row" where
  "fill_row r = map (\<lambda>(k, v). (k, fill0 v)) r"

definition owned :: "dataframe \<Rightarrow> string \<Rightarrow> dataframe \<Rightarrow> bool" where
  "owned t c m \<longleftrightarrow>
     c \<in> set (columns m) \<and> set (team_keys t) \<subseteq> set (team_keys m) \<and>
     (\<forall>r \<in> set (rows m).
        (\<exists>a \<in> set (rows t). team_of a = team_of r \<and> cell_at r c = cell_at a c)
        \<or> (team_of r \<notin> set (team_keys t) \<and> cell_at r c = NaN))"

definition pages_wf :: "web \<Rightarrow> bool" where
  "pages_wf w \<longleftrightarrow>
     (\<forall>url status page df. w url = Response status page \<and> table_of page = Parsed df
        \<longrightarrow> wf_df df)"

subsection \<open>Definitions that follow the specification's words\<close>





subsection \<open>Frames used as concrete inputs\<close>

definition ex_A :: dataframe where
  "ex_A = \<lparr>columns = [''Team'', ''Pts''],
           rows = [[(''Team'', Str ''Duke''), (''Pts'', Num 80)],
                   [(''Team'', Str ''UNC''), (''Pts'', Num 75)]]\<rparr>"

definition ex_B :: dataframe where
  "ex_B = \<lparr>columns = [''Team'', ''Pts'', ''Reb''],
           rows = [[(''Team'', Str ''Duke''), (''Pts'', Num 99), (''Reb'', Num 30)],
                   [(''Team'', Str ''Kansas''), (''Pts'', Num 70), (''Reb'', Num 28)]]\<rparr>"


definition ex_page1 :: dataframe where
  "ex_page1 = \<lparr>columns = [''Team'', ''Pts''],
               rows = [[(''Team'', Str ''Duke''), (''Pts'', Num 80)]]\<rparr>"




text \<open>
  A matcher for the one shape of pattern the collector class builds, \<^verbatim>\<open>^prefix.*stats\<close>
  with a prefix free of operators other than the dot, to instantiate \<open>re_search\<close>.
\<close>

fun match_dots :: "string \<Rightarrow> string \<Rightarrow> string option" where
  "match_dots [] s = Some s"
| "match_dots (p # ps) [] = None"
| "match_dots (p # ps) (ch # cs) =
     (if p = CHR ''.'' \<or> p = ch then match_dots ps cs else None)"

definition ex_re_search :: "string \<Rightarrow> string \<Rightarrow> bool" where
  "ex_re_search pat s =
     (case pat of
        [] \<Rightarrow> False
      | a # rest \<Rightarrow>
          a = CHR ''^'' \<and>
          (case match_dots (take (length rest - 7) rest) s of
             None \<Rightarrow> False
           | Some tail \<Rightarrow> contains ''stats'' tail))"

definition ex_page3 :: dataframe where
  "ex_page3 = \<lparr>columns = [''Team'', ''Pts''],
               rows = [[(''Team'', Str ''UNC''), (''Pts'', Num 75)]]\<rparr>"

text \<open>A site for the collector class, whose links are absolute, and one for the first
  script, whose links are relative to \<^verbatim>\<open>https://www.ncaa.com\<close>.\<close>

definition ex_web :: web where
  "ex_web url =
     (if url = ''https://www.ncaa.com/stats/basketball-men/d1/current/team/474''
      then Response 200
             (Soup [Some ''https://www.ncaa.com/stats/basketball-men/d1/current/team/474/p2?stats'',
                    Some ''https://www.ncaa.com/stats/basketball-men/d1/current/team/474/p3?stats'',
                    Some ''https://www.ncaa.com/stats/basketball-men/d1/current/team/474/p2?stats'',
                    None, Some ''/about'']
                (Parsed ex_page1))
      else if url = ''https://www.ncaa.com/stats/basketball-men/d1/current/team/474/p2?stats''
      then Response 200 (Soup [] NoTable)
      else if url = ''https://www.ncaa.com/stats/basketball-men/d1/current/team/474/p3?stats''
      then Response 200 (Soup [] (Parsed ex_page3))
      else if url = ''https://www.ncaa.com/stats/basketball-men/d1/current/team/216''
      then Response 200 (Soup [Some ''/about''] (Parsed ex_B))
      else if url = ''https://www.ncaa.com/stats/basketball-men/d1/current/team/999''
      then Response 404 (Soup [] NoTable)
      else RequestException)"

definition ex_soup_dup :: soup where
  "ex_soup_dup =
     Soup [Some ''/stats/basketball-men/d1/current/team/474/p1'',
           Some ''/stats/basketball-men/d1/current/team/474/p2'',
           Some ''/stats/basketball-men/d1/current/team/474/p2'',
           Some ''/stats/basketball-men/d1/current/team/474/p3'']
       (Parsed ex_page1)"

definition ex_site :: web where
  "ex_site url =
     (if url = ''https://www.ncaa.com/stats/basketball-men/d1/current/team/474''
      then Response 200
             (Soup [Some ''/stats/basketball-men/d1/current/team/474'',
                    Some ''/stats/basketball-men/d1/current/team/474/p2'',
                    Some ''/stats/basketball-men/d1/current/team/474/p3'',
                    Some ''/stats/basketball-men/d1/current/team/474/p3'']
                (Parsed ex_page1))
      else if url = ''https://www.ncaa.com/stats/basketball-men/d1/current/team/474/p2''
      then Response 200 (Soup [] NoTable)
      else if url = ''https://www.ncaa.com/stats/basketball-men/d1/current/team/474/p3''
      then Response 200 (Soup [] (Parsed ex_page3))
      else if url = ''https://www.ncaa.com/stats/basketball-men/d1/current/team/216''
      then Response 200 (Soup [Some ''/about''] (Parsed ex_B))
      else if url = ''https://www.ncaa.com/stats/basketball-men/d1/current/team/1284''
      then Response 200
             (Soup [Some ''/stats/basketball-men/d1/current/team/1284/p2'',
                    Some ''/stats/basketball-men/d1/current/team/1284/p2'']
                (Parsed ex_page1))
      else if url = ''https://www.ncaa.com/stats/basketball-men/d1/current/team/1284/p2''
      then Response 200 (Soup [] (Parsed ex_page3))
      else RequestException)"

section \<open>Rows and cells\<close>

lemma is_str_iff: "is_str k \<longleftrightarrow> (\<exists>s. k = Str s)"
  by (cases k) auto

lemma map_of_filter_fst:
  "map_of [(k, v) \<leftarrow> r. P k] c = (if P c then map_of r c else None)"
  by (induction r) auto

lemma map_fst_filter_fst:
  "map fst [(k, v) \<leftarrow> r. P k] = filter P (map fst r)"
  by (induction r) auto

lemma cell_at_append:
  "cell_at (l @ x) c = (if c \<in> set (map fst l) then cell_at l c else cell_at x c)"
proof (cases "map_of l c")
  case None
  then have "c \<notin> fst ` set l" by (simp add: map_of_eq_None_iff)
  with None show ?thesis by (simp add: cell_at_def map_add_def)
next
  case (Some v)
  then have "c \<in> fst ` set l" by (metis map_of_eq_None_iff option.distinct(1))
  with Some show ?thesis by (simp add: cell_at_def map_add_def)
qed

lemma cell_at_filter_fst:
  "P c \<Longrightarrow> cell_at [(k, v) \<leftarrow> r. P k] c = cell_at r c"
  by (simp add: cell_at_def map_of_filter_fst)

lemma cell_at_nan_row: "cell_at (nan_row cols) c = NaN"
  by (induction cols) (auto simp: nan_row_def cell_at_def)

lemma cell_at_key_only_row:
  "cell_at (key_only_row cols k) c = (if c = ''Team'' \<and> c \<in> set cols then k else NaN)"
  by (induction cols) (auto simp: key_only_row_def cell_at_def)

section \<open>One turn of the merge loop\<close>

text \<open>
  After the shared labels are dropped the two frames overlap in the key only, so
  \<^verbatim>\<open>pd.merge\<close> suffixes nothing and the step has the closed form \<open>merged\<close>.
\<close>

lemma overlap_after_drop: "overlap m (drop_columns df (dup_cols m df)) = []"
  by (auto simp: overlap_def drop_columns_def dup_cols_def filter_empty_conv)

lemma suffixed_Nil: "suffixed [] sfx c = c"
  by (simp add: suffixed_def)

lemma left_row_Nil: "left_row [] l = l"
  by (induction l) (auto simp: left_row_def suffixed_Nil)

lemma right_row_Nil: "right_row [] r = [(k, v) \<leftarrow> r. k \<noteq> ''Team'']"
proof -
  have "map (\<lambda>(k, v). (suffixed [] ''_y'' k, v)) xs = xs" for xs :: row
    by (induction xs) (auto simp: suffixed_Nil)
  then show ?thesis by (simp add: right_row_def)
qed

lemma map_suffixed_Nil: "map (suffixed [] sfx) cs = cs"
  by (induction cs) (auto simp: suffixed_Nil)

lemma left_columns_Nil: "left_columns [] m = columns m"
  by (simp add: left_columns_def map_suffixed_Nil)

lemma right_columns_Nil: "right_columns [] d = [c \<leftarrow> columns d. c \<noteq> ''Team'']"
  by (simp add: right_columns_def map_suffixed_Nil)

lemma team_keys_alt: "team_keys d = map team_of (rows d)"
  by (simp add: team_keys_def team_of_def)

lemma dropped_cells:
  assumes "''Team'' \<in> set (columns m)" and "map fst r = columns d"
  shows "[(k, v) \<leftarrow> [(k, v) \<leftarrow> r. k \<notin> set (dup_cols m d)]. k \<noteq> ''Team''] = new_cells m r"
proof -
  have "(k \<notin> set (dup_cols m d) \<and> k \<noteq> ''Team'') = (k \<notin> set (columns m))"
    if "(k, v) \<in> set r" for k v
  proof -
    from that assms(2) have "k \<in> set (columns d)" by (metis fst_conv image_eqI set_map)
    with assms(1) show ?thesis by (auto simp: dup_cols_def)
  qed
  then show ?thesis
    unfolding new_cells_def filter_filter by (intro filter_cong) auto
qed

lemma dropped_columns:
  assumes "''Team'' \<in> set (columns m)"
  shows "[c \<leftarrow> columns (drop_columns d (dup_cols m d)). c \<noteq> ''Team''] = new_columns m d"
  using assms unfolding new_columns_def drop_columns_def
  by (auto simp: dup_cols_def intro: filter_cong)

lemma dropped_team:
  "cell_at [(k, v) \<leftarrow> r. k \<notin> set (dup_cols m d)] ''Team'' = cell_at r ''Team''"
  by (rule cell_at_filter_fst) (simp add: dup_cols_def)

lemma team_in_dropped:
  "''Team'' \<in> set (columns d) \<Longrightarrow> ''Team'' \<in> set (columns (drop_columns d (dup_cols m d)))"
  by (simp add: drop_columns_def dup_cols_def)

lemma merge_step_eq:
  assumes tm: "''Team'' \<in> set (columns m)" and td: "''Team'' \<in> set (columns d)"
    and wd: "wf_df d"
  shows "merge_step m d =
           Inr \<lparr>columns = columns m @ new_columns m d,
                rows = sort_key (\<lambda>r. py_str (team_of r))
                         (concat (map (pair_left m d) (rows m)) @ pair_right m d)\<rparr>"
proof -
  let ?d' = "drop_columns d (dup_cols m d)"
  let ?g = "\<lambda>r. [(k, v) \<leftarrow> r. k \<notin> set (dup_cols m d)]"
  have rows': "rows ?d' = map ?g (rows d)" by (simp add: drop_columns_def)
  have key_g: "cell_at (?g r) ''Team'' = cell_at r ''Team''" for r by (rule dropped_team)
  have rr: "right_row [] (?g r) = new_cells m r" if "r \<in> set (rows d)" for r
    using that wd dropped_cells [OF tm, of r d] by (simp add: right_row_Nil wf_df_def)
  have sel: "[r \<leftarrow> rows ?d'. team_of r = k] = map ?g [r \<leftarrow> rows d. team_of r = k]" for k
    unfolding rows' filter_map by (simp add: comp_def key_g team_of_def)
  have jl: "joined_left m ?d' l = pair_left m d l" for l
  proof -
    let ?ms = "[r \<leftarrow> rows d. team_of r = team_of l]"
    have e: "(?ms = []) = (team_of l \<notin> set (team_keys d))"
      by (auto simp: filter_empty_conv team_keys_alt image_iff)
    have m: "map (\<lambda>r. l @ right_row [] r) (map ?g ?ms) = map (\<lambda>r. l @ new_cells m r) ?ms"
      by (simp add: rr)
    have "joined_left m ?d' l =
            (if map ?g ?ms = [] then [l @ nan_row (new_columns m d)]
             else map (\<lambda>r. l @ right_row [] r) (map ?g ?ms))"
      unfolding joined_left_def overlap_after_drop Let_def left_row_Nil
        right_columns_Nil dropped_columns [OF tm] team_of_def [symmetric] sel ..
    also have "\<dots> = pair_left m d l"
      unfolding m pair_left_def using e by simp
    finally show ?thesis .
  qed
  have jl': "joined_left m ?d' = pair_left m d"
    by (rule ext) (rule jl)
  have ro: "right_only m ?d' = pair_right m d"
  proof -
    have f: "[r \<leftarrow> rows ?d'. cell_at r ''Team'' \<notin> set (team_keys m)]
               = map ?g [r \<leftarrow> rows d. team_of r \<notin> set (team_keys m)]"
      unfolding rows' filter_map by (simp add: comp_def key_g team_of_def)
    show ?thesis
      unfolding right_only_def pair_right_def overlap_after_drop Let_def left_columns_Nil f
      by (simp add: rr key_g team_of_def)
  qed
  show ?thesis
    unfolding merge_step_def pd_merge_outer_def
    using tm team_in_dropped [OF td, of m]
    by (simp add: overlap_after_drop left_columns_Nil right_columns_Nil dropped_columns [OF tm]
        jl' ro team_of_def [abs_def])
qed

lemma team_keys_I: "r \<in> set (rows d) \<Longrightarrow> team_of r \<in> set (team_keys d)"
  by (simp add: team_keys_alt)

lemma merge_step_merged:
  "''Team'' \<in> set (columns m) \<Longrightarrow> ''Team'' \<in> set (columns d) \<Longrightarrow> wf_df d \<Longrightarrow>
   merge_step m d = Inr (merged m d)"
  by (simp add: merge_step_eq merged_def)

lemma columns_merged: "columns (merged m d) = columns m @ new_columns m d"
  by (simp add: merged_def)

lemma set_rows_merged:
  "set (rows (merged m d)) = (\<Union>l \<in> set (rows m). set (pair_left m d l)) \<union> set (pair_right m d)"
  by (simp add: merged_def)

lemma merged_rows_cases:
  assumes "r' \<in> set (rows (merged m d))"
  shows "(\<exists>l \<in> set (rows m). \<exists>r \<in> set (rows d). team_of r = team_of l \<and> r' = l @ new_cells m r)
       \<or> (\<exists>l \<in> set (rows m). team_of l \<notin> set (team_keys d) \<and> r' = l @ nan_row (new_columns m d))
       \<or> (\<exists>r \<in> set (rows d). team_of r \<notin> set (team_keys m)
             \<and> r' = key_only_row (columns m) (team_of r) @ new_cells m r)"
  using assms unfolding set_rows_merged pair_left_def pair_right_def
  by (auto split: if_splits)

lemma merged_both:
  "l \<in> set (rows m) \<Longrightarrow> r \<in> set (rows d) \<Longrightarrow> team_of r = team_of l \<Longrightarrow>
   l @ new_cells m r \<in> set (rows (merged m d))"
proof -
  assume a: "l \<in> set (rows m)" "r \<in> set (rows d)" "team_of r = team_of l"
  then have "team_of l \<in> set (team_keys d)" using team_keys_I [of r d] by simp
  with a have "l @ new_cells m r \<in> set (pair_left m d l)" by (simp add: pair_left_def)
  with a(1) show ?thesis unfolding set_rows_merged by blast
qed

lemma merged_left_only:
  "l \<in> set (rows m) \<Longrightarrow> team_of l \<notin> set (team_keys d) \<Longrightarrow>
   l @ nan_row (new_columns m d) \<in> set (rows (merged m d))"
proof -
  assume a: "l \<in> set (rows m)" "team_of l \<notin> set (team_keys d)"
  then have "l @ nan_row (new_columns m d) \<in> set (pair_left m d l)" by (simp add: pair_left_def)
  with a(1) show ?thesis unfolding set_rows_merged by blast
qed

lemma merged_right_only:
  "r \<in> set (rows d) \<Longrightarrow> team_of r \<notin> set (team_keys m) \<Longrightarrow>
   key_only_row (columns m) (team_of r) @ new_cells m r \<in> set (rows (merged m d))"
  unfolding set_rows_merged pair_right_def by auto

lemma map_fst_new_cells:
  "map fst r = columns d \<Longrightarrow> map fst (new_cells m r) = new_columns m d"
  by (simp add: new_cells_def new_columns_def map_fst_filter_fst)

lemma map_fst_nan_row: "map fst (nan_row cols) = cols"
  by (induction cols) (auto simp: nan_row_def)

lemma map_fst_key_only_row: "map fst (key_only_row cols k) = cols"
  by (induction cols) (auto simp: key_only_row_def)

lemma wf_merged:
  assumes "wf_df m" and "wf_df d"
  shows "wf_df (merged m d)"
proof -
  have "distinct (columns m @ new_columns m d)"
    using assms by (auto simp: wf_df_def new_columns_def)
  moreover have "map fst r' = columns m @ new_columns m d" if "r' \<in> set (rows (merged m d))" for r'
    using merged_rows_cases [OF that] assms
    by (auto simp: wf_df_def map_fst_new_cells map_fst_nan_row map_fst_key_only_row)
  ultimately show ?thesis by (simp add: wf_df_def columns_merged)
qed

lemma team_of_append:
  "''Team'' \<in> set (map fst l) \<Longrightarrow> team_of (l @ x) = team_of l"
  by (simp add: team_of_def cell_at_append)

lemma team_of_key_only_row:
  "''Team'' \<in> set cols \<Longrightarrow> team_of (key_only_row cols k) = k"
  by (simp add: team_of_def cell_at_key_only_row)

lemma set_team_keys_merged:
  assumes "wf_df m" and "''Team'' \<in> set (columns m)"
  shows "set (team_keys (merged m d)) = set (team_keys m) \<union> set (team_keys d)"
proof (intro set_eqI iffI)
  fix k assume "k \<in> set (team_keys (merged m d))"
  then obtain r' where r': "r' \<in> set (rows (merged m d))" and k: "k = team_of r'"
    by (auto simp: team_keys_alt)
  from merged_rows_cases [OF r'] assms k
  show "k \<in> set (team_keys m) \<union> set (team_keys d)"
    by (auto simp: wf_df_def team_of_append team_of_key_only_row map_fst_key_only_row team_keys_alt)
next
  fix k assume "k \<in> set (team_keys m) \<union> set (team_keys d)"
  then have "(\<exists>l \<in> set (rows m). team_of l = k)
      \<or> (\<exists>r \<in> set (rows d). team_of r = k \<and> k \<notin> set (team_keys m))"
    unfolding team_keys_alt set_map by (cases "k \<in> team_of ` set (rows m)") auto
  then consider l where "l \<in> set (rows m)" "team_of l = k"
    | r where "r \<in> set (rows d)" "team_of r = k" "k \<notin> set (team_keys m)"
    by blast
  then show "k \<in> set (team_keys (merged m d))"
  proof cases
    case 1
    then have tl: "''Team'' \<in> set (map fst l)" using assms by (simp add: wf_df_def)
    show ?thesis
    proof (cases "team_of l \<in> set (team_keys d)")
      case True
      then obtain r where "r \<in> set (rows d)" "team_of r = team_of l" by (auto simp: team_keys_alt)
      from merged_both [OF 1(1) this] have "team_of (l @ new_cells m r) \<in> set (team_keys (merged m d))"
        by (rule team_keys_I)
      then show ?thesis using 1(2) tl by (simp add: team_of_append)
    next
      case False
      from merged_left_only [OF 1(1) False]
      have "team_of (l @ nan_row (new_columns m d)) \<in> set (team_keys (merged m d))"
        by (rule team_keys_I)
      then show ?thesis using 1(2) tl by (simp add: team_of_append)
    qed
  next
    case 2
    from merged_right_only [OF 2(1)] 2(2,3)
    have "team_of (key_only_row (columns m) (team_of r) @ new_cells m r) \<in> set (team_keys (merged m d))"
      by (intro team_keys_I) simp
    then show ?thesis using 2(2) assms(2)
      by (simp add: team_of_append map_fst_key_only_row team_of_key_only_row)
  qed
qed

lemma category_df_merged:
  assumes "category_df m" and "category_df d"
  shows "category_df (merged m d)"
  using assms wf_merged [of m d] set_team_keys_merged [of m d]
  by (auto simp: category_df_def is_str_iff columns_merged)

section \<open>The merge loop\<close>

lemma merge_loop_foldl:
  assumes "category_df m" and "\<forall>d \<in> set dfs. category_df d"
  shows "merge_loop m dfs = Inr (foldl merged m dfs) \<and> category_df (foldl merged m dfs)"
  using assms
proof (induction dfs arbitrary: m)
  case Nil
  then show ?case by simp
next
  case (Cons d dfs)
  then have "merge_step m d = Inr (merged m d)"
    by (intro merge_step_merged) (auto simp: category_df_def is_str_iff)
  moreover have "category_df (merged m d)"
    using Cons.prems by (intro category_df_merged) auto
  ultimately show ?case using Cons by simp
qed

lemma set_team_keys_foldl:
  assumes "category_df m" and "\<forall>d \<in> set dfs. category_df d"
  shows "set (team_keys (foldl merged m dfs)) = set (team_keys m) \<union> (\<Union>d \<in> set dfs. set (team_keys d))"
  using assms
proof (induction dfs arbitrary: m)
  case Nil
  then show ?case by simp
next
  case (Cons d dfs)
  have c: "category_df (merged m d)" using Cons.prems by (intro category_df_merged) auto
  have "set (team_keys (merged m d)) = set (team_keys m) \<union> set (team_keys d)"
    using Cons.prems by (intro set_team_keys_merged) (auto simp: category_df_def is_str_iff)
  with Cons.IH [OF c] Cons.prems show ?case by auto
qed

lemma cell_at_left:
  "c \<in> set (map fst l) \<Longrightarrow> cell_at (l @ x) c = cell_at l c"
  by (simp add: cell_at_append)

lemma cell_at_right:
  "c \<notin> set (map fst l) \<Longrightarrow> cell_at (l @ x) c = cell_at x c"
  by (simp add: cell_at_append)

lemma cell_at_new_cells:
  "c \<notin> set (columns m) \<Longrightarrow> cell_at (new_cells m r) c = cell_at r c"
  unfolding new_cells_def by (rule cell_at_filter_fst)

lemma owned_self:
  "c \<in> set (columns t) \<Longrightarrow> owned t c t"
  by (auto simp: owned_def)

lemma owned_new:
  assumes m: "category_df m" and c: "c \<notin> set (columns m)" "c \<in> set (columns t)"
  shows "owned t c (merged m t)"
proof -
  have wm: "wf_df m" and tm: "''Team'' \<in> set (columns m)" using m by (auto simp: category_df_def is_str_iff)
  have "(\<exists>a \<in> set (rows t). team_of a = team_of r' \<and> cell_at r' c = cell_at a c)
        \<or> (team_of r' \<notin> set (team_keys t) \<and> cell_at r' c = NaN)"
    if "r' \<in> set (rows (merged m t))" for r'
    using merged_rows_cases [OF that]
  proof (elim disjE bexE conjE)
    fix l r assume a: "l \<in> set (rows m)" "r \<in> set (rows t)" "team_of r = team_of l"
      "r' = l @ new_cells m r"
    then have f: "map fst l = columns m" using wm by (simp add: wf_df_def)
    have "team_of r' = team_of r" using a f tm by (simp add: team_of_append)
    moreover have "cell_at r' c = cell_at r c"
      using a f c by (simp add: cell_at_right cell_at_new_cells)
    ultimately show ?thesis using a(2) by (intro disjI1 bexI [of _ r]) simp_all
  next
    fix l assume a: "l \<in> set (rows m)" "team_of l \<notin> set (team_keys t)"
      "r' = l @ nan_row (new_columns m t)"
    then have f: "map fst l = columns m" using wm by (simp add: wf_df_def)
    have "team_of r' = team_of l" using a f tm by (simp add: team_of_append)
    moreover have "cell_at r' c = NaN" using a f c by (simp add: cell_at_right cell_at_nan_row)
    ultimately show ?thesis using a(2) by simp
  next
    fix r assume a: "r \<in> set (rows t)" "team_of r \<notin> set (team_keys m)"
      "r' = key_only_row (columns m) (team_of r) @ new_cells m r"
    have "team_of r' = team_of r"
      using a tm by (simp add: team_of_append map_fst_key_only_row team_of_key_only_row)
    moreover have "cell_at r' c = cell_at r c"
      using a c by (simp add: cell_at_right map_fst_key_only_row cell_at_new_cells)
    ultimately show ?thesis using a(1) by (intro disjI1 bexI [of _ r]) simp_all
  qed
  moreover have "c \<in> set (columns (merged m t))"
    using c by (simp add: columns_merged new_columns_def)
  moreover have "set (team_keys t) \<subseteq> set (team_keys (merged m t))"
    using set_team_keys_merged [OF wm tm, of t] by simp
  ultimately show ?thesis by (simp add: owned_def)
qed

lemma owned_step:
  assumes m: "category_df m" and o: "owned t c m" and c: "c \<noteq> ''Team''"
  shows "owned t c (merged m d)"
proof -
  have wm: "wf_df m" and tm: "''Team'' \<in> set (columns m)" using m by (auto simp: category_df_def is_str_iff)
  have cm: "c \<in> set (columns m)" and sub: "set (team_keys t) \<subseteq> set (team_keys m)"
    using o by (auto simp: owned_def)
  have old: "(\<exists>a \<in> set (rows t). team_of a = team_of l \<and> cell_at l c = cell_at a c)
        \<or> (team_of l \<notin> set (team_keys t) \<and> cell_at l c = NaN)" if "l \<in> set (rows m)" for l
    using o that by (simp add: owned_def)
  have "(\<exists>a \<in> set (rows t). team_of a = team_of r' \<and> cell_at r' c = cell_at a c)
        \<or> (team_of r' \<notin> set (team_keys t) \<and> cell_at r' c = NaN)"
    if "r' \<in> set (rows (merged m d))" for r'
    using merged_rows_cases [OF that]
  proof (elim disjE bexE conjE)
    fix l r assume a: "l \<in> set (rows m)" "r' = l @ new_cells m r"
    then have f: "map fst l = columns m" using wm by (simp add: wf_df_def)
    have "team_of r' = team_of l" "cell_at r' c = cell_at l c"
      using a f tm cm by (simp_all add: team_of_append cell_at_left)
    then show ?thesis using old [OF a(1)] by simp
  next
    fix l assume a: "l \<in> set (rows m)" "r' = l @ nan_row (new_columns m d)"
    then have f: "map fst l = columns m" using wm by (simp add: wf_df_def)
    have "team_of r' = team_of l" "cell_at r' c = cell_at l c"
      using a f tm cm by (simp_all add: team_of_append cell_at_left)
    then show ?thesis using old [OF a(1)] by simp
  next
    fix r assume a: "team_of r \<notin> set (team_keys m)"
      "r' = key_only_row (columns m) (team_of r) @ new_cells m r"
    have "team_of r' = team_of r"
      using a tm by (simp add: team_of_append map_fst_key_only_row team_of_key_only_row)
    moreover have "cell_at r' c = NaN"
      using a cm c by (simp add: cell_at_left map_fst_key_only_row cell_at_key_only_row)
    ultimately show ?thesis using a(1) sub by auto
  qed
  moreover have "c \<in> set (columns (merged m d))" using cm by (simp add: columns_merged)
  moreover have "set (team_keys t) \<subseteq> set (team_keys (merged m d))"
    using set_team_keys_merged [OF wm tm, of d] sub by auto
  ultimately show ?thesis by (simp add: owned_def)
qed

lemma owned_foldl:
  assumes "category_df m" and "\<forall>d \<in> set dfs. category_df d" and "owned t c m" and "c \<noteq> ''Team''"
  shows "owned t c (foldl merged m dfs)"
  using assms
proof (induction dfs arbitrary: m)
  case Nil
  then show ?case by simp
next
  case (Cons d dfs)
  have "category_df (merged m d)" using Cons.prems by (intro category_df_merged) auto
  moreover have "owned t c (merged m d)" using Cons.prems by (intro owned_step) auto
  ultimately show ?case using Cons by simp
qed

lemma columns_foldl_subset:
  "set (columns (foldl merged m ds)) \<subseteq> set (columns m) \<union> (\<Union>d \<in> set ds. set (columns d))"
proof (induction ds arbitrary: m)
  case Nil
  then show ?case by simp
next
  case (Cons d ds)
  have "set (columns (merged m d)) \<subseteq> set (columns m) \<union> set (columns d)"
    by (auto simp: columns_merged new_columns_def)
  with Cons [of "merged m d"] show ?case by auto
qed

lemma owned_first:
  assumes cat: "\<forall>d \<in> set (pre @ t # post). category_df d"
    and c: "c \<in> set (columns t)" "\<forall>p \<in> set pre. c \<notin> set (columns p)" "c \<noteq> ''Team''"
    and eq: "pre @ t # post = first # rest"
  shows "owned t c (foldl merged first rest)"
proof (cases pre)
  case Nil
  with eq have "first = t" "rest = post" by auto
  moreover have "owned t c t" using c(1) by (rule owned_self)
  ultimately show ?thesis using cat c(3) by (intro owned_foldl) auto
next
  case (Cons p pre')
  with eq have r: "first = p" "rest = pre' @ t # post" by auto
  let ?m = "foldl merged first pre'"
  have cm: "category_df ?m"
    using merge_loop_foldl [of first pre'] cat r Cons by auto
  have ncol: "c \<notin> set (columns ?m)"
  proof -
    from columns_foldl_subset [of first pre'] c(2) Cons r show ?thesis by auto
  qed
  have "owned t c (merged ?m t)" using cm ncol c(1) by (rule owned_new)
  moreover have "category_df (merged ?m t)" using cm cat by (intro category_df_merged) auto
  ultimately have "owned t c (foldl merged (merged ?m t) post)"
    using cat c(3) by (intro owned_foldl) auto
  then show ?thesis by (simp add: r)
qed

section \<open>Filling the missing cells\<close>

lemma rows_fillna0: "rows (fillna0 m) = map fill_row (rows m)"
  by (simp add: fillna0_def fill_row_def)

lemma columns_fillna0: "columns (fillna0 m) = columns m"
  by (simp add: fillna0_def)

lemma cell_at_fill_row:
  "cell_at (fill_row r) c = (if c \<in> fst ` set r then fill0 (cell_at r c) else NaN)"
  by (induction r) (auto simp: fill_row_def cell_at_def)

lemma fill0_not_NaN: "fill0 v \<noteq> NaN"
  by (cases v) auto

lemma team_of_fill_row:
  assumes "team_of r = Str s"
  shows "team_of (fill_row r) = Str s"
proof (cases "''Team'' \<in> fst ` set r")
  case True
  then show ?thesis using assms by (simp add: team_of_def cell_at_fill_row)
next
  case False
  then have "map_of r ''Team'' = None" by (simp add: map_of_eq_None_iff)
  then show ?thesis using assms by (simp add: team_of_def cell_at_def)
qed

lemma team_keys_fillna0:
  assumes "category_df m"
  shows "team_keys (fillna0 m) = team_keys m"
proof -
  have "team_of (fill_row r) = team_of r" if rin: "r \<in> set (rows m)" for r
  proof -
    from assms obtain s where "team_of r = Str s"
      using team_keys_I [OF rin] by (auto simp: category_df_def is_str_iff)
    then show ?thesis by (simp add: team_of_fill_row)
  qed
  then show ?thesis by (simp add: team_keys_alt rows_fillna0)
qed

lemma merge_all_dfs_Cons:
  assumes "\<forall>d \<in> set (first # rest). category_df d"
  shows "merge_all_dfs (first # rest) = Inr (fillna0 (foldl merged first rest))"
  using merge_loop_foldl [of first rest] assms by (simp add: merge_all_dfs_def)


lemma owned_master:
  assumes cat: "\<forall>d \<in> set (pre @ t # post). category_df d"
    and c: "c \<in> set (columns t)" "\<forall>p \<in> set pre. c \<notin> set (columns p)" "c \<noteq> ''Team''"
    and eq: "pre @ t # post = first # rest"
    and r: "r \<in> set (rows (fillna0 (foldl merged first rest)))"
  shows "(\<exists>a \<in> set (rows t). team_of a = team_of r \<and> cell_at r c = fill0 (cell_at a c))
         \<or> (team_of r \<notin> set (team_keys t) \<and> cell_at r c = Num 0)"
proof -
  let ?m = "foldl merged first rest"
  have o: "owned t c ?m" using cat c eq by (rule owned_first)
  have cm: "category_df ?m" using merge_loop_foldl [of first rest] cat eq by auto
  from r obtain l where l: "l \<in> set (rows ?m)" and rl: "r = fill_row l"
    by (auto simp: rows_fillna0)
  have f: "map fst l = columns ?m" using cm l by (simp add: category_df_def is_str_iff wf_df_def)
  have "c \<in> set (columns ?m)" using o by (simp add: owned_def)
  then have "c \<in> fst ` set l" using f by (metis set_map)
  then have cell: "cell_at r c = fill0 (cell_at l c)" by (simp add: rl cell_at_fill_row)
  obtain s where "team_of l = Str s" using cm team_keys_I [OF l] by (auto simp: category_df_def is_str_iff)
  then have team: "team_of r = team_of l" by (simp add: rl team_of_fill_row)
  from o l have "(\<exists>a \<in> set (rows t). team_of a = team_of l \<and> cell_at l c = cell_at a c)
        \<or> (team_of l \<notin> set (team_keys t) \<and> cell_at l c = NaN)" by (simp add: owned_def)
  then show ?thesis unfolding cell team by auto
qed

section \<open>Unique keys\<close>










section \<open>Concatenation and key coercion\<close>


lemma map_fst_reindex_row: "map fst (reindex_row cols r) = cols"
  by (induction cols) (auto simp: reindex_row_def)




lemma team_of_astype_str:
  "''Team'' \<in> set (map fst r) \<Longrightarrow> team_of (astype_str ''Team'' r) = Str (py_str (team_of r))"
  by (induction r) (auto simp: astype_str_def team_of_def cell_at_def)

lemma cell_at_astype_str:
  "c \<noteq> ''Team'' \<Longrightarrow> cell_at (astype_str ''Team'' r) c = cell_at r c"
  by (induction r) (auto simp: astype_str_def cell_at_def)

lemma map_fst_astype_str: "map fst (astype_str c r) = map fst r"
  by (induction r) (auto simp: astype_str_def)

lemma pd_concat_rows_fst:
  assumes "pd_concat dfs = Inr df" and "r \<in> set (rows df)"
  shows "map fst r = columns df"
  using assms by (auto simp: pd_concat_def Let_def map_fst_reindex_row split: if_splits)


lemma team_astype_str_keys:
  assumes "team_astype_str combined = Inr d" and "\<forall>r \<in> set (rows combined). map fst r = columns combined"
  shows "columns d = columns combined
         \<and> team_keys d = map (\<lambda>v. Str (py_str v)) (team_keys combined)
         \<and> (\<forall>c. c \<noteq> ''Team'' \<longrightarrow>
               map (\<lambda>r. cell_at r c) (rows d) = map (\<lambda>r. cell_at r c) (rows combined))"
proof -
  from assms(1) have t: "''Team'' \<in> set (columns combined)"
    and d: "d = combined\<lparr>rows := map (astype_str ''Team'') (rows combined)\<rparr>"
    by (auto simp: team_astype_str_def split: if_splits)
  have "team_of (astype_str ''Team'' r) = Str (py_str (team_of r))" if "r \<in> set (rows combined)" for r
    using that assms(2) t by (intro team_of_astype_str) simp
  then have "team_keys d = map (\<lambda>v. Str (py_str v)) (team_keys combined)"
    by (simp add: d team_keys_alt)
  moreover have "columns d = columns combined" by (simp add: d)
  moreover have "\<forall>c. c \<noteq> ''Team'' \<longrightarrow>
               map (\<lambda>r. cell_at r c) (rows d) = map (\<lambda>r. cell_at r c) (rows combined)"
    by (simp add: d cell_at_astype_str)
  ultimately show ?thesis by simp
qed

lemma collect_all_dfs_member:
  assumes "collect_all_dfs re_search w stat_ids = Inr all_dfs" and "d \<in> set all_dfs"
  shows "\<exists>stat_id initial_soup combined.
           stat_id \<in> set stat_ids
           \<and> get_soup w (initial_url stat_id) = Some initial_soup
           \<and> combined_df_for_stat w (stat_links re_search initial_soup stat_id) = Inr (Some combined)
           \<and> team_astype_str combined = Inr d"
  using assms
proof (induction stat_ids arbitrary: all_dfs)
  case Nil
  then show ?case by simp
next
  case (Cons stat_id stat_ids)
  show ?case
  proof (cases "get_soup w (initial_url stat_id)")
    case None
    with Cons.prems have "collect_all_dfs re_search w stat_ids = Inr all_dfs" by simp
    from Cons.IH [OF this Cons.prems(2)] show ?thesis by auto
  next
    case (Some initial_soup)
    show ?thesis
    proof (cases "combined_df_for_stat w (stat_links re_search initial_soup stat_id)")
      case (Inl e)
      with Some Cons.prems show ?thesis by simp
    next
      case (Inr opt)
      show ?thesis
      proof (cases opt)
        case None
        with Some Inr Cons.prems have "collect_all_dfs re_search w stat_ids = Inr all_dfs" by simp
        from Cons.IH [OF this Cons.prems(2)] show ?thesis by auto
      next
        case c: (Some combined)
        with Some Inr Cons.prems obtain df dfs where
          df: "team_astype_str combined = Inr df"
          and dfs: "collect_all_dfs re_search w stat_ids = Inr dfs"
          and all: "all_dfs = df # dfs"
          by (auto split: sum.splits)
        show ?thesis
        proof (cases "d = df")
          case True
          with Some Inr c df show ?thesis by auto
        next
          case False
          with all Cons.prems(2) have "d \<in> set dfs" by simp
          from Cons.IH [OF dfs this] show ?thesis by auto
        qed
      qed
    qed
  qed
qed

section \<open>Links and pages in the collector class\<close>

text \<open>
  The list of links has no repeats and keeps the order of first occurrence; the start URL
  is among the pages exactly once; a page that fails contributes nothing and stops nothing.
\<close>

lemma remdups_skip:
  "x \<in> set zs \<Longrightarrow> remdups (ys @ x # zs) = remdups (ys @ zs)"
  by (induction ys) auto

lemma unique_loop_remdups:
  "distinct acc \<Longrightarrow> unique_loop acc (set acc) xs = rev (remdups (rev (acc @ xs)))"
proof (induction xs arbitrary: acc)
  case Nil
  then show ?case by (simp add: distinct_remdups_id)
next
  case (Cons x xs)
  show ?case
  proof (cases "x \<in> set acc")
    case True
    then have "remdups (rev xs @ x # rev acc) = remdups (rev xs @ rev acc)"
      by (intro remdups_skip) simp
    with True Cons show ?thesis by simp
  next
    case False
    with Cons.prems have "distinct (acc @ [x])" by simp
    from Cons.IH [OF this] False show ?thesis by simp
  qed
qed

lemma unique_links_first_seen:
  "get_subsequent_links_u re_search page prefix =
     rev (remdups (rev (matching_links re_search page prefix)))"
  using unique_loop_remdups [of "[]"] by (simp add: get_subsequent_links_u_def)

lemma unique_links_distinct:
  "distinct (get_subsequent_links_u re_search page prefix)
   \<and> set (get_subsequent_links_u re_search page prefix) = set (matching_links re_search page prefix)"
  by (simp add: unique_links_first_seen)

lemma unique_links_prefix_stable:
  "rev (remdups (rev (xs @ ys))) = rev (remdups (rev xs)) @ [y \<leftarrow> rev (remdups (rev ys)). y \<notin> set xs]"
proof (induction ys rule: rev_induct)
  case Nil
  then show ?case by simp
next
  case (snoc y ys)
  then show ?case by (auto simp: rev_filter [symmetric] simp del: rev_filter)
qed

lemma count_list_distinct:
  "distinct xs \<Longrightarrow> x \<in> set xs \<Longrightarrow> count_list xs x = 1"
  by (induction xs) auto

lemma count_list_absent: "x \<notin> set xs \<Longrightarrow> count_list xs x = 0"
  by (induction xs) auto

lemma stat_links_start_once:
  "count_list (stat_links re_search initial_soup stat_id) (initial_url stat_id) = 1
   \<and> distinct (stat_links re_search initial_soup stat_id)"
  using unique_links_distinct [of re_search initial_soup "initial_url stat_id @ ''/''"]
  by (auto simp: stat_links_def Let_def count_list_distinct count_list_absent)

lemma stat_links_no_pagination:
  "matching_links re_search initial_soup (initial_url stat_id @ ''/'') = []
   \<Longrightarrow> stat_links re_search initial_soup stat_id = [initial_url stat_id]"
  by (simp add: stat_links_def get_subsequent_links_u_def)

lemma reindex_row_id:
  assumes "distinct (map fst r)"
  shows "reindex_row (map fst r) r = r"
proof -
  have "(fst p, cell_at r (fst p)) = p" if "p \<in> set r" for p
  proof -
    from that have "(fst p, snd p) \<in> set r" by simp
    with assms have "map_of r (fst p) = Some (snd p)" by (rule map_of_is_SomeI)
    then show ?thesis by (simp add: cell_at_def)
  qed
  then have "map (\<lambda>p. (fst p, cell_at r (fst p))) r = r" by (simp add: map_idI)
  then show ?thesis by (simp add: reindex_row_def comp_def)
qed

lemma pd_concat_single:
  assumes "wf_df df"
  shows "pd_concat [df] = Inr df"
proof -
  have "reindex_row (columns df) r = r" if "r \<in> set (rows df)" for r
    using assms that reindex_row_id [of r] by (simp add: wf_df_def)
  then have "map (reindex_row (columns df)) (rows df) = rows df" by (simp add: map_idI)
  then show ?thesis by (simp add: pd_concat_def union_columns_def)
qed

lemma df_list_for_stat_append:
  "df_list_for_stat w (xs @ ys) = df_list_for_stat w xs @ df_list_for_stat w ys"
  by (induction xs) (auto split: option.splits)

lemma failed_page_skipped:
  assumes "get_team_stats_data w bad = None"
  shows "df_list_for_stat w (xs @ bad # ys) = df_list_for_stat w (xs @ ys)"
    and "combined_df_for_stat w (xs @ bad # ys) = combined_df_for_stat w (xs @ ys)"
  using assms by (simp_all add: df_list_for_stat_append combined_df_for_stat_def)

lemma page_failure_is_None:
  "get_team_stats_data w url = None \<longleftrightarrow>
     (w url = RequestException
      \<or> (\<exists>status page. w url = Response status page
            \<and> (400 \<le> status \<and> status < 600 \<or> table_of page = NoTable
                \<or> table_of page = ReadHtmlError)))"
  by (auto simp: get_team_stats_data_def get_soup_def split: response.splits first_table.splits)

lemma single_page_category:
  assumes "matching_links re_search initial_soup (initial_url stat_id @ ''/'') = []"
    and "get_team_stats_data w (initial_url stat_id) = Some df" and "wf_df df"
  shows "combined_df_for_stat w (stat_links re_search initial_soup stat_id) = Inr (Some df)"
  using assms by (simp add: stat_links_no_pagination combined_df_for_stat_def pd_concat_single)

section \<open>From the site to the merge\<close>

text \<open>
  On a site with well-formed tables every frame that either collection loop produces
  satisfies \<open>category_df\<close>, and both scripts compute their master by \<open>merge_all_dfs\<close>.
\<close>

lemma distinct_union_columns:
  "distinct acc \<Longrightarrow> distinct cs \<Longrightarrow> distinct (union_columns acc cs)"
  by (auto simp: union_columns_def)

lemma distinct_foldl_union_columns:
  "distinct acc \<Longrightarrow> \<forall>cs \<in> set css. distinct cs \<Longrightarrow> distinct (foldl union_columns acc css)"
  by (induction css arbitrary: acc) (auto simp: distinct_union_columns)

lemma wf_pd_concat:
  assumes "pd_concat dfs = Inr df" and "\<forall>d \<in> set dfs. distinct (columns d)"
  shows "wf_df df"
proof -
  have "distinct (foldl union_columns [] (map columns dfs))"
    using assms(2) by (intro distinct_foldl_union_columns) auto
  with assms(1) show ?thesis
    using pd_concat_rows_fst [OF assms(1)]
    by (auto simp: wf_df_def pd_concat_def Let_def split: if_splits)
qed

lemma get_team_stats_data_wf:
  assumes "pages_wf w" and "get_team_stats_data w link = Some df"
  shows "wf_df df"
  using assms unfolding pages_wf_def
  by (auto simp: get_team_stats_data_def get_soup_def
      split: response.splits first_table.splits if_splits option.splits)

lemma df_list_for_stat_wf:
  assumes "pages_wf w" and "d \<in> set (df_list_for_stat w links)"
  shows "wf_df d"
  using assms(2)
proof (induction links)
  case Nil
  then show ?case by simp
next
  case (Cons link links)
  show ?case
  proof (cases "get_team_stats_data w link")
    case None
    with Cons show ?thesis by simp
  next
    case (Some df)
    with assms(1) have "wf_df df" by (intro get_team_stats_data_wf)
    with Some Cons show ?thesis by auto
  qed
qed

lemma category_df_astype:
  assumes "team_astype_str combined = Inr d" and "wf_df combined"
  shows "category_df d"
proof -
  from assms(1) have t: "''Team'' \<in> set (columns combined)"
    and d: "d = combined\<lparr>rows := map (astype_str ''Team'') (rows combined)\<rparr>"
    by (auto simp: team_astype_str_def split: if_splits)
  have f: "\<forall>r \<in> set (rows combined). map fst r = columns combined"
    using assms(2) by (simp add: wf_df_def)
  from team_astype_str_keys [OF assms(1) f]
  have k: "team_keys d = map (\<lambda>v. Str (py_str v)) (team_keys combined)" by simp
  have "wf_df d" using assms(2) by (simp add: d wf_df_def map_fst_astype_str)
  moreover have "''Team'' \<in> set (columns d)" using t by (simp add: d)
  moreover have "\<forall>k \<in> set (team_keys d). is_str k" unfolding k by auto
  ultimately show ?thesis by (simp add: category_df_def)
qed

lemma collected_category_df:
  assumes "pages_wf w" and "collect_all_dfs re_search w stat_ids = Inr all_dfs"
    and "d \<in> set all_dfs"
  shows "category_df d"
proof -
  from collect_all_dfs_member [OF assms(2,3)] obtain stat_id initial_soup combined where
    c: "combined_df_for_stat w (stat_links re_search initial_soup stat_id) = Inr (Some combined)"
    and d: "team_astype_str combined = Inr d" by blast
  let ?dfs = "df_list_for_stat w (stat_links re_search initial_soup stat_id)"
  from c have p: "pd_concat ?dfs = Inr combined"
    by (auto simp: combined_df_for_stat_def Let_def split: if_splits sum.splits)
  have "\<forall>x \<in> set ?dfs. distinct (columns x)"
    using df_list_for_stat_wf [OF assms(1)] by (auto simp: wf_df_def)
  with p have "wf_df combined" by (rule wf_pd_concat)
  with d show ?thesis by (rule category_df_astype)
qed

lemma full_stat_dataframe_total:
  assumes "pages_wf w" and "collect_all_dfs re_search w stat_ids = Inr all_dfs"
  shows "get_full_stat_dataframe re_search w stat_ids = merge_all_dfs all_dfs
         \<and> (\<forall>d \<in> set all_dfs. category_df d)"
  using assms collected_category_df [OF assms] by (simp add: get_full_stat_dataframe_def)

lemma astype_str_idem: "astype_str c (astype_str c r) = astype_str c r"
  by (induction r) (auto simp: astype_str_def)

lemma team_astype_str_fixed:
  "team_astype_str df = Inr d \<Longrightarrow> team_astype_str d = Inr d"
  by (auto simp: team_astype_str_def astype_str_idem split: if_splits)

lemma get_df_each_fixed:
  assumes "get_df_each w nums = Inr dfs"
  shows "length dfs = length nums \<and> (\<forall>d \<in> set dfs. team_astype_str d = Inr d)"
  using assms
proof (induction nums arbitrary: dfs)
  case Nil
  then show ?case by simp
next
  case (Cons num nums)
  then obtain df d ds where
    "team_astype_str df = Inr d" "get_df_each w nums = Inr ds" "dfs = d # ds"
    by (auto split: sum.splits)
  with Cons.IH [of ds] show ?case by (simp add: team_astype_str_fixed)
qed

lemma merge_from_none_Some:
  assumes "\<forall>d \<in> set dfs. team_astype_str d = Inr d"
  shows "merge_from_none (Some m) dfs =
           (case merge_loop m dfs of Inl e \<Rightarrow> Inl e | Inr m' \<Rightarrow> Inr (Some m'))"
  using assms by (induction dfs arbitrary: m) (auto split: sum.splits)

lemma legacy_script_is_merge_all:
  assumes "get_df_each w all_stats = Inr all_dfs"
  shows "script_master_df w = merge_all_dfs all_dfs"
proof -
  from get_df_each_fixed [OF assms]
  have len: "length all_dfs = length all_stats"
    and fx: "\<forall>d \<in> set all_dfs. team_astype_str d = Inr d" by simp_all
  have "all_stats \<noteq> []" by (simp add: all_stats_def)
  with len obtain first rest where e: "all_dfs = first # rest" by (cases all_dfs) auto
  with fx have "merge_from_none None all_dfs = merge_from_none (Some first) rest" by simp
  also have "\<dots> = (case merge_loop first rest of Inl e \<Rightarrow> Inl e | Inr m' \<Rightarrow> Inr (Some m'))"
    using fx e by (intro merge_from_none_Some) simp
  finally show ?thesis
    using assms by (simp add: script_master_df_def get_full_data_def merge_all_dfs_def e
        split: sum.splits)
qed

lemma category_df_ex_A: "category_df ex_A"
  by (simp add: category_df_def wf_df_def ex_A_def team_keys_def cell_at_def)

lemma category_df_ex_B: "category_df ex_B"
  by (simp add: category_df_def wf_df_def ex_B_def team_keys_def cell_at_def)

lemma get_data_each_wf:
  assumes "pages_wf w" and "get_data_each w links = Inr dfs" and "d \<in> set dfs"
  shows "wf_df d"
  using assms(2,3)
proof (induction links arbitrary: dfs)
  case Nil
  then show ?case by simp
next
  case (Cons link links)
  then obtain df ds where
    g: "get_data w link = Inr df" and e: "get_data_each w links = Inr ds" and dfs: "dfs = df # ds"
    by (auto split: sum.splits)
  from g assms(1) have "wf_df df"
    unfolding pages_wf_def
    by (auto simp: get_data_def split: response.splits first_table.splits)
  with Cons.IH [OF e] Cons.prems(2) dfs show ?case by auto
qed

lemma get_df_wf:
  assumes "pages_wf w" and "get_df w url = Inr df"
  shows "wf_df df"
proof -
  from assms(2) obtain links dfs where
    e: "get_data_each w links = Inr dfs" and p: "pd_concat dfs = Inr df"
    by (auto simp: get_df_def Let_def split: sum.splits)
  have "\<forall>d \<in> set dfs. distinct (columns d)"
    using get_data_each_wf [OF assms(1) e] by (auto simp: wf_df_def)
  with p show ?thesis by (rule wf_pd_concat)
qed

lemma legacy_collected_category_df:
  assumes "pages_wf w" and "get_df_each w nums = Inr all_dfs" and "d \<in> set all_dfs"
  shows "category_df d"
  using assms(2,3)
proof (induction nums arbitrary: all_dfs)
  case Nil
  then show ?case by simp
next
  case (Cons num nums)
  then obtain df d' ds where
    g: "get_df w (''https://www.ncaa.com/stats/basketball-men/d1/current/team/'' @ num) = Inr df"
    and a: "team_astype_str df = Inr d'" and e: "get_df_each w nums = Inr ds"
    and all: "all_dfs = d' # ds"
    by (auto split: sum.splits)
  have "category_df d'" using a get_df_wf [OF assms(1) g] by (rule category_df_astype)
  with Cons.IH [OF e] Cons.prems(2) all show ?case by auto
qed

section \<open>The claims\<close>



text \<open>
  C2, in the first script. \<^verbatim>\<open>get_subsequent_links\<close> returns a link as often as the
  markup has it: for a page whose pagination names page 2 twice the list holds that URL
  twice, and it still does after \<^verbatim>\<open>get_df\<close> has cut the last element off. The
  collector class removes repeats instead (\<open>unique_links_distinct\<close>,
  \<open>unique_links_first_seen\<close>).
\<close>

theorem C2_legacy_links_repeat:
  "get_subsequent_links ex_soup_dup ''https://www.ncaa.com'' =
     [''https://www.ncaa.com/stats/basketball-men/d1/current/team/474/p1'',
      ''https://www.ncaa.com/stats/basketball-men/d1/current/team/474/p2'',
      ''https://www.ncaa.com/stats/basketball-men/d1/current/team/474/p2'',
      ''https://www.ncaa.com/stats/basketball-men/d1/current/team/474/p3'']
   \<and> \<not> distinct (get_subsequent_links ex_soup_dup ''https://www.ncaa.com'')
   \<and> \<not> distinct (butlast (get_subsequent_links ex_soup_dup ''https://www.ncaa.com''))"
  by (simp add: get_subsequent_links_def ex_soup_dup_def)

text \<open>
  C3. For every sequence of category frames (unique labels, a \<open>Team\<close> column, string
  keys) the merge succeeds and is a full outer join on the key: the teams of the master
  are exactly the teams of all the frames together. No cell of the master is missing
  after \<^verbatim>\<open>fillna(0)\<close>, and a row whose team the frame that contributed a column does
  not have holds the number 0 in that column.
\<close>

theorem C3_outer_join_zero_fill:
  assumes "\<forall>d \<in> set all_dfs. category_df d"
  shows "\<exists>master. merge_all_dfs all_dfs = Inr master
           \<and> set (team_keys master) = (\<Union>d \<in> set all_dfs. set (team_keys d))
           \<and> (\<forall>r \<in> set (rows master). \<forall>c \<in> set (columns master). cell_at r c \<noteq> NaN)
           \<and> (\<forall>pre t post c. all_dfs = pre @ t # post \<and> c \<in> set (columns t)
                  \<and> (\<forall>p \<in> set pre. c \<notin> set (columns p)) \<and> c \<noteq> ''Team''
                \<longrightarrow> (\<forall>r \<in> set (rows master).
                       team_of r \<notin> set (team_keys t) \<longrightarrow> cell_at r c = Num 0))"
proof (cases all_dfs)
  case Nil
  then show ?thesis by (simp add: merge_all_dfs_def team_keys_def)
next
  case (Cons first rest)
  let ?m = "foldl merged first rest"
  let ?master = "fillna0 ?m"
  have cat: "\<forall>d \<in> set (first # rest). category_df d" using assms Cons by simp
  then have cm: "category_df ?m" using merge_loop_foldl [of first rest] by simp
  have 1: "merge_all_dfs all_dfs = Inr ?master"
    unfolding Cons using cat by (rule merge_all_dfs_Cons)
  have 2: "set (team_keys ?master) = (\<Union>d \<in> set all_dfs. set (team_keys d))"
    unfolding team_keys_fillna0 [OF cm] Cons
    using set_team_keys_foldl [of first rest] cat by simp
  have 3: "cell_at r c \<noteq> NaN" if r: "r \<in> set (rows ?master)" and c: "c \<in> set (columns ?master)"
    for r c
  proof -
    from r obtain l where l: "l \<in> set (rows ?m)" and rl: "r = fill_row l"
      by (auto simp: rows_fillna0)
    have "map fst l = columns ?m" using cm l by (simp add: category_df_def wf_df_def)
    with c have "c \<in> fst ` set l" by (metis columns_fillna0 set_map)
    then show ?thesis by (simp add: rl cell_at_fill_row fill0_not_NaN)
  qed
  have 4: "cell_at r c = Num 0"
    if "all_dfs = pre @ t # post" "c \<in> set (columns t)" "\<forall>p \<in> set pre. c \<notin> set (columns p)"
      "c \<noteq> ''Team''" "r \<in> set (rows ?master)" "team_of r \<notin> set (team_keys t)"
    for pre t post c r
  proof -
    have eq: "pre @ t # post = first # rest" using that(1) Cons by simp
    have cat': "\<forall>d \<in> set (pre @ t # post). category_df d" using cat eq by simp
    from owned_master [OF cat' that(2,3,4) eq that(5)] show ?thesis
    proof (elim disjE bexE conjE)
      fix a assume "a \<in> set (rows t)" "team_of a = team_of r"
      with team_keys_I [of a t] that(6) show ?thesis by simp
    qed
  qed
  have all3: "\<forall>r \<in> set (rows ?master). \<forall>c \<in> set (columns ?master). cell_at r c \<noteq> NaN"
    using 3 by (intro ballI)
  have all4: "\<forall>pre t post c. all_dfs = pre @ t # post \<and> c \<in> set (columns t)
                  \<and> (\<forall>p \<in> set pre. c \<notin> set (columns p)) \<and> c \<noteq> ''Team''
                \<longrightarrow> (\<forall>r \<in> set (rows ?master).
                       team_of r \<notin> set (team_keys t) \<longrightarrow> cell_at r c = Num 0)"
  proof (intro allI impI ballI)
    fix pre t post c r
    assume "all_dfs = pre @ t # post \<and> c \<in> set (columns t)
                  \<and> (\<forall>p \<in> set pre. c \<notin> set (columns p)) \<and> c \<noteq> ''Team''"
      and "r \<in> set (rows ?master)" and "team_of r \<notin> set (team_keys t)"
    then show "cell_at r c = Num 0" using 4 [of pre t post c r] by (elim conjE)
  qed
  show ?thesis
    by (rule exI [of _ ?master]) (intro conjI 1 2 all3 all4)
qed

theorem C3_outer_join_zero_fill_witness:
  "category_df ex_A \<and> category_df ex_B
   \<and> (\<exists>master. merge_all_dfs [ex_A, ex_B] = Inr master
         \<and> Str ''UNC'' \<in> set (team_keys master) \<and> Str ''Kansas'' \<in> set (team_keys master)
         \<and> (\<forall>r \<in> set (rows master). \<forall>c \<in> set (columns master). cell_at r c \<noteq> NaN)
         \<and> (\<forall>r \<in> set (rows master).
               team_of r \<notin> set (team_keys ex_B) \<longrightarrow> cell_at r ''Reb'' = Num 0))"
proof -
  have cat: "\<forall>d \<in> set [ex_A, ex_B]. category_df d"
    by (simp add: category_df_ex_A category_df_ex_B)
  from C3_outer_join_zero_fill [OF cat] obtain master where
    all: "merge_all_dfs [ex_A, ex_B] = Inr master
      \<and> set (team_keys master) = (\<Union>d \<in> set [ex_A, ex_B]. set (team_keys d))
      \<and> (\<forall>r \<in> set (rows master). \<forall>c \<in> set (columns master). cell_at r c \<noteq> NaN)
      \<and> (\<forall>pre t post c. [ex_A, ex_B] = pre @ t # post \<and> c \<in> set (columns t)
                  \<and> (\<forall>p \<in> set pre. c \<notin> set (columns p)) \<and> c \<noteq> ''Team''
                \<longrightarrow> (\<forall>r \<in> set (rows master).
                       team_of r \<notin> set (team_keys t) \<longrightarrow> cell_at r c = Num 0))" ..
  from all have m: "merge_all_dfs [ex_A, ex_B] = Inr master" by (rule conjunct1)
  from all have k: "set (team_keys master) = (\<Union>d \<in> set [ex_A, ex_B]. set (team_keys d))"
    by (elim conjE)
  from all have n: "\<forall>r \<in> set (rows master). \<forall>c \<in> set (columns master). cell_at r c \<noteq> NaN"
    by (elim conjE)
  from all have z: "\<forall>pre t post c. [ex_A, ex_B] = pre @ t # post \<and> c \<in> set (columns t)
                  \<and> (\<forall>p \<in> set pre. c \<notin> set (columns p)) \<and> c \<noteq> ''Team''
                \<longrightarrow> (\<forall>r \<in> set (rows master).
                       team_of r \<notin> set (team_keys t) \<longrightarrow> cell_at r c = Num 0)"
    by (elim conjE)
  have k1: "Str ''UNC'' \<in> set (team_keys master)"
    unfolding k by (simp add: ex_A_def team_keys_def cell_at_def)
  have k2: "Str ''Kansas'' \<in> set (team_keys master)"
    unfolding k by (simp add: ex_B_def team_keys_def cell_at_def)
  have pre: "[ex_A, ex_B] = [ex_A] @ ex_B # [] \<and> ''Reb'' \<in> set (columns ex_B)
      \<and> (\<forall>p \<in> set [ex_A]. ''Reb'' \<notin> set (columns p)) \<and> ''Reb'' \<noteq> ''Team''"
    by (simp add: ex_A_def ex_B_def)
  have z': "\<forall>r \<in> set (rows master). team_of r \<notin> set (team_keys ex_B) \<longrightarrow> cell_at r ''Reb'' = Num 0"
    using z [rule_format, OF pre] by (intro ballI impI)
  show ?thesis
    by (intro conjI category_df_ex_A category_df_ex_B exI [of _ master] m k1 k2 n z')
qed

text \<open>
  C4, in the first script. \<^verbatim>\<open>get_data\<close> catches nothing: on a site whose second page
  has no table, \<^verbatim>\<open>get_df\<close> ends in AttributeError and returns no table at all. On the
  same pages the collector class skips the page and concatenates the other two
  (in general: \<open>failed_page_skipped\<close>, \<open>page_failure_is_None\<close>).
\<close>

theorem C4_legacy_page_failure_aborts:
  "get_df ex_site ''https://www.ncaa.com/stats/basketball-men/d1/current/team/474''
     = Inl AttributeError
   \<and> combined_df_for_stat ex_site
         [''https://www.ncaa.com/stats/basketball-men/d1/current/team/474'',
          ''https://www.ncaa.com/stats/basketball-men/d1/current/team/474/p2'',
          ''https://www.ncaa.com/stats/basketball-men/d1/current/team/474/p3'']
     = Inr (Some \<lparr>columns = [''Team'', ''Pts''],
                  rows = [[(''Team'', Str ''Duke''), (''Pts'', Num 80)],
                          [(''Team'', Str ''UNC''), (''Pts'', Num 75)]]\<rparr>)"
  by code_simp

text \<open>
  C5, in the first script. \<^verbatim>\<open>get_df\<close> reads tables only from the links it finds, never
  from the start page as such: a start page without pagination links ends in the
  ValueError of \<^verbatim>\<open>pd.concat([])\<close>, and a start page whose links omit it contributes no
  rows. The collector class puts the start URL in exactly once and returns the start
  page's table for a single-page category (\<open>stat_links_start_once\<close>,
  \<open>single_page_category\<close>).
\<close>

theorem C5_legacy_single_page_fails:
  "get_df ex_site ''https://www.ncaa.com/stats/basketball-men/d1/current/team/216''
     = Inl ValueError
   \<and> get_df ex_site ''https://www.ncaa.com/stats/basketball-men/d1/current/team/1284''
     = Inr ex_page3
   \<and> combined_df_for_stat ex_web (stat_links ex_re_search (Soup [Some ''/about''] (Parsed ex_B)) ''216'')
     = Inr (Some ex_B)"
  by code_simp












text \<open>
  C10. \<^verbatim>\<open>get_full_data\<close> gives the same result for any two arguments: its loop runs over
  the global \<^verbatim>\<open>all_stats\<close>.
\<close>

theorem C10_urls_argument_unused:
  "get_full_data w urls1 = get_full_data w urls2"
  by (simp add: get_full_data_def)

end
